theory Spec2Isabelle
  imports Main
begin

section \<open>Values, references and the object store\<close>

text \<open>
  The container of \<^verbatim>\<open>src/LinkedList/index.ts\<close> is generic in its element type \<open>T\<close>.
  The code looks inside an element in a few places: the constructor tests \<^verbatim>\<open>!value\<close> and
  \<^verbatim>\<open>Array.isArray(value)\<close>, \<^verbatim>\<open>search\<close> compares with \<^verbatim>\<open>!==\<close>, and \<^verbatim>\<open>fist\<close> and \<^verbatim>\<open>last\<close>
  replace a nullish value by \<^verbatim>\<open>null\<close>. Elements are therefore modelled as JavaScript
  values with their truthiness and their strict equality. Numbers are the integers plus
  \<open>NaN\<close> (the one number that is not strictly equal to itself); \<open>VObj\<close> is a reference to
  an object that is not an array, compared by identity. The methods \<^verbatim>\<open>forEach\<close>, \<^verbatim>\<open>map\<close>
  and \<^verbatim>\<open>reduce\<close> run a callback of the caller on every node; no property below is about
  them and they are left out.
\<close>

datatype val = VUndefined | VNull | VBool bool | VNum int | VNaN | VStr string | VObj nat

fun truthy :: "val \<Rightarrow> bool" where
  "truthy VUndefined = False"
| "truthy VNull = False"
| "truthy (VBool b) = b"
| "truthy (VNum n) = (n \<noteq> 0)"
| "truthy VNaN = False"
| "truthy (VStr s) = (s \<noteq> [])"
| "truthy (VObj a) = True"

definition strict_eq :: "val \<Rightarrow> val \<Rightarrow> bool" where
  "strict_eq a b = (a = b \<and> a \<noteq> VNaN)"

text \<open>
  A variable of type \<^verbatim>\<open>Node<T> | null\<close> holds \<open>Null\<close> or a reference. Reading the
  \<^verbatim>\<open>next\<close> property of a node after \<^verbatim>\<open>delete node.next\<close> gives \<^verbatim>\<open>undefined\<close>, so such a
  variable can hold \<open>Undefined\<close> as well. \<open>Null\<close> and \<open>Undefined\<close> are falsy, a reference is
  truthy; only \<open>Null\<close> satisfies \<^verbatim>\<open>=== null\<close>.
\<close>

datatype ref = Null | Undefined | Ref nat

record node =
  node_next :: ref
  node_value :: val

text \<open>
  The state is the list object (fields \<^verbatim>\<open>head\<close>, \<^verbatim>\<open>tail\<close>, \<^verbatim>\<open>size\<close>) together with the
  store of node objects it points into. \<open>fresh\<close> is the address the next object literal
  gets. A property access on \<open>Null\<close> or \<open>Undefined\<close> throws a \<open>TypeError\<close>; the other
  errors are the \<^verbatim>\<open>throw Error(...)\<close> statements of the source, one constructor each.
  No method of the source writes to the list or the store before a statement that can
  throw, so an error leaves the state as it was and the model returns the error alone.
\<close>

record state =
  store :: "nat \<Rightarrow> node"
  fresh :: nat
  head :: ref
  tail :: ref
  size_l :: int

datatype error =
    PopEmpty
  | ShiftEmpty
  | AddAfterNotExist int
  | RemoveAtNotExist int
  | AtNoItem int
  | TypeError

definition new_node :: "val \<Rightarrow> ref \<Rightarrow> state \<Rightarrow> nat \<times> state" where
  "new_node v nx s =
     (fresh s,
      s\<lparr>store := (store s)(fresh s := \<lparr>node_next = nx, node_value = v\<rparr>),
        fresh := Suc (fresh s)\<rparr>)"

definition set_next :: "nat \<Rightarrow> ref \<Rightarrow> state \<Rightarrow> state" where
  "set_next a nx s = s\<lparr>store := (store s)(a := (store s a)\<lparr>node_next := nx\<rparr>)\<rparr>"

definition deleted :: node where
  "deleted = \<lparr>node_next = Undefined, node_value = VUndefined\<rparr>"

definition deleteNode :: "nat \<Rightarrow> state \<Rightarrow> state" where
  "deleteNode a s = s\<lparr>store := (store s)(a := deleted)\<rparr>"

definition empty_list :: state where
  "empty_list = \<lparr>store = (\<lambda>_. deleted), fresh = 0, head = Null, tail = Null, size_l = 0\<rparr>"

section \<open>The private helpers\<close>

definition addToEnd :: "val \<Rightarrow> state \<Rightarrow> error + state" where
  "addToEnd item s =
     (case tail s of
        Null \<Rightarrow>
          (let (a, s1) = new_node item Null s
           in Inr (s1\<lparr>head := Ref a, tail := Ref a, size_l := size_l s1 + 1\<rparr>))
      | Undefined \<Rightarrow> Inl TypeError
      | Ref t \<Rightarrow>
          (let (a, s1) = new_node item Null s;
               s2 = set_next t (Ref a) s1
           in Inr (s2\<lparr>tail := node_next (store s2 t), size_l := size_l s2 + 1\<rparr>)))"

definition addToFront :: "val \<Rightarrow> state \<Rightarrow> state" where
  "addToFront item s =
     (if tail s = Null then
        (let (a, s1) = new_node item Null s
         in s1\<lparr>head := Ref a, tail := Ref a, size_l := size_l s1 + 1\<rparr>)
      else
        (let (a, s1) = new_node item (head s) s
         in s1\<lparr>head := Ref a, size_l := size_l s1 + 1\<rparr>))"

text \<open>
  The loop of \<^verbatim>\<open>nodeAt\<close>: \<^verbatim>\<open>while (currentNode && currentNode.next && i < index)\<close>. It
  returns the final \<open>currentNode\<close> and \<open>i\<close>. The guard \<open>i < index\<close> bounds it.
\<close>

function nodeAt_loop :: "(nat \<Rightarrow> node) \<Rightarrow> int \<Rightarrow> ref \<Rightarrow> int \<Rightarrow> ref \<times> int" where
  "nodeAt_loop h index currentNode i =
     (case currentNode of
        Ref a \<Rightarrow>
          (case node_next (h a) of
             Ref b \<Rightarrow>
               if i < index then nodeAt_loop h index (node_next (h a)) (i + 1)
               else (currentNode, i)
           | _ \<Rightarrow> (currentNode, i))
      | _ \<Rightarrow> (currentNode, i))"
  by pat_completeness auto
termination
  by (relation "measure (\<lambda>(h, index, currentNode, i). nat (index - i))") auto

definition nodeAt :: "int \<Rightarrow> state \<Rightarrow> error + ref" where
  "nodeAt index s =
     (if index < 0 then Inr Null
      else if index = 0 then Inr (head s)
      else
        (case head s of
           Null \<Rightarrow> Inr Null
         | Undefined \<Rightarrow> Inl TypeError
         | Ref a \<Rightarrow>
             if node_next (store s a) = Null then Inr Null
             else
               (let (currentNode, i) = nodeAt_loop (store s) index (head s) 1
                in if i < index then Inr Null else Inr currentNode)))"

section \<open>The public methods\<close>

fun addAll :: "val list \<Rightarrow> state \<Rightarrow> error + state" where
  "addAll [] s = Inr s"
| "addAll (item # items) s =
     (case addToEnd item s of Inl e \<Rightarrow> Inl e | Inr s1 \<Rightarrow> addAll items s1)"

text \<open>
  The constructor's parameter is \<^verbatim>\<open>value?: T | T[]\<close>: a single value or an array of values.
  A call without argument is the call with \<^verbatim>\<open>undefined\<close>, that is \<open>Single VUndefined\<close>.
  It starts from a list object with the field initialisers \<open>Null\<close>, \<open>Null\<close>, \<open>0\<close>.
\<close>

datatype ctor_arg = Single val | Multiple "val list"

definition init_fields :: "state \<Rightarrow> state" where
  "init_fields s = s\<lparr>head := Null, tail := Null, size_l := 0\<rparr>"

fun constructor_in :: "state \<Rightarrow> ctor_arg \<Rightarrow> error + state" where
  "constructor_in s0 (Single v) =
     (let s = init_fields s0 in
      if \<not> truthy v then Inr s
      else
        (let (a, s1) = new_node v Null s
         in Inr (s1\<lparr>head := Ref a, tail := Ref a, size_l := size_l s1 + 1\<rparr>)))"
| "constructor_in s0 (Multiple items) = addAll items (init_fields s0)"

definition constructor :: "ctor_arg \<Rightarrow> error + state" where
  "constructor arg = constructor_in empty_list arg"

definition "from" :: "val list \<Rightarrow> error + state" where
  "from iterableValue = addAll iterableValue empty_list"

definition push :: "val \<Rightarrow> state \<Rightarrow> error + state" where
  "push v s = addToEnd v s"

definition unshift :: "val \<Rightarrow> state \<Rightarrow> state" where
  "unshift v s = addToFront v s"

definition pop :: "state \<Rightarrow> error + (val \<times> state)" where
  "pop s =
     (if head s = Null then Inl PopEmpty
      else
        (case nodeAt (size_l s - 2) s of
           Inl e \<Rightarrow> Inl e
         | Inr Null \<Rightarrow>
             (case head s of
                Ref a \<Rightarrow>
                  Inr (node_value (store s a),
                       s\<lparr>head := Null, tail := Null, size_l := size_l s - 1\<rparr>)
              | _ \<Rightarrow> Inl TypeError)
         | Inr Undefined \<Rightarrow> Inl TypeError
         | Inr (Ref n) \<Rightarrow>
             (case tail s of
                Ref t \<Rightarrow>
                  (let result = node_value (store s t);
                       s1 = set_next n Null s
                   in Inr (result, s1\<lparr>tail := Ref n, size_l := size_l s1 - 1\<rparr>))
              | _ \<Rightarrow> Inl TypeError)))"

definition shift :: "state \<Rightarrow> error + (val \<times> state)" where
  "shift s =
     (case head s of
        Null \<Rightarrow> Inl ShiftEmpty
      | Undefined \<Rightarrow> Inl TypeError
      | Ref a \<Rightarrow>
          (let result = node_value (store s a);
               s1 = (case node_next (store s a) of
                       Ref b \<Rightarrow> s\<lparr>head := Null, tail := Null\<rparr>
                     | nx \<Rightarrow> s\<lparr>head := nx\<rparr>)
           in Inr (result, s1\<lparr>size_l := size_l s1 - 1\<rparr>)))"

definition addAfter :: "int \<Rightarrow> val \<Rightarrow> state \<Rightarrow> error + state" where
  "addAfter index v s =
     (case nodeAt index s of
        Inl e \<Rightarrow> Inl e
      | Inr Null \<Rightarrow> Inl (AddAfterNotExist index)
      | Inr Undefined \<Rightarrow> Inl TypeError
      | Inr (Ref p) \<Rightarrow>
          (let (a, s1) = new_node v (node_next (store s p)) s;
               s2 = s1\<lparr>size_l := size_l s1 + 1\<rparr>
           in Inr (set_next p (Ref a) s2)))"

definition removeAt :: "int \<Rightarrow> state \<Rightarrow> error + state" where
  "removeAt index s =
     (case nodeAt (index - 1) s of
        Inl e \<Rightarrow> Inl e
      | Inr Null \<Rightarrow> Inl (RemoveAtNotExist index)
      | Inr Undefined \<Rightarrow> Inl TypeError
      | Inr (Ref n) \<Rightarrow>
          (case node_next (store s n) of
             Null \<Rightarrow> Inl (RemoveAtNotExist index)
           | Undefined \<Rightarrow> Inl TypeError
           | Ref temp \<Rightarrow>
               (let nextNode = node_next (store s temp);
                    s1 = set_next n nextNode s;
                    s2 = deleteNode temp s1
                in Inr (s2\<lparr>size_l := size_l s2 - 1\<rparr>))))"

definition length_l :: "state \<Rightarrow> int" where
  "length_l s = size_l s"

definition fist :: "state \<Rightarrow> val" where
  "fist s =
     (case head s of
        Ref a \<Rightarrow>
          (case node_value (store s a) of
             VUndefined \<Rightarrow> VNull | VNull \<Rightarrow> VNull | v \<Rightarrow> v)
      | _ \<Rightarrow> VNull)"

definition last_l :: "state \<Rightarrow> val" where
  "last_l s =
     (case tail s of
        Ref a \<Rightarrow>
          (case node_value (store s a) of
             VUndefined \<Rightarrow> VNull | VNull \<Rightarrow> VNull | v \<Rightarrow> v)
      | _ \<Rightarrow> VNull)"

text \<open>The loop of \<^verbatim>\<open>at\<close>: \<^verbatim>\<open>while (i < index && node)\<close>; it returns the final \<open>node\<close>.\<close>

function at_loop :: "(nat \<Rightarrow> node) \<Rightarrow> int \<Rightarrow> int \<Rightarrow> ref \<Rightarrow> ref" where
  "at_loop h index i nd =
     (if i < index then
        (case nd of
           Ref a \<Rightarrow> at_loop h index (i + 1) (node_next (h a))
         | _ \<Rightarrow> nd)
      else nd)"
  by pat_completeness auto
termination
  by (relation "measure (\<lambda>(h, index, i, nd). nat (index - i))") auto

definition at :: "int \<Rightarrow> state \<Rightarrow> error + val" where
  "at index s =
     (case at_loop (store s) index 0 (head s) of
        Null \<Rightarrow> Inl (AtNoItem index)
      | Undefined \<Rightarrow> Inl TypeError
      | Ref a \<Rightarrow> Inr (node_value (store s a)))"

text \<open>
  The remaining loops follow \<^verbatim>\<open>next\<close> links until a falsy one, with no other bound.
  They are partial functions: \<open>None\<close> is a loop that never ends. The loop of
  \<^verbatim>\<open>search\<close> carries its two variables \<open>(index, node)\<close> as a pair.
\<close>

partial_function (option) clear_loop :: "state \<Rightarrow> ref \<Rightarrow> state option" where
  "clear_loop s nd =
     (case nd of
        Ref temp \<Rightarrow> clear_loop (deleteNode temp s) (node_next (store s temp))
      | _ \<Rightarrow> Some s)"

declare clear_loop.simps [code]

definition clear :: "state \<Rightarrow> state option" where
  "clear s = map_option (\<lambda>s1. s1\<lparr>size_l := 0\<rparr>) (clear_loop s (head s))"

definition isEmpy :: "state \<Rightarrow> bool" where
  "isEmpy s = (size_l s = 0)"

partial_function (option) toArray_loop :: "(nat \<Rightarrow> node) \<Rightarrow> val list \<Rightarrow> ref \<Rightarrow> val list option" where
  "toArray_loop h result nd =
     (case nd of
        Ref a \<Rightarrow> toArray_loop h (result @ [node_value (h a)]) (node_next (h a))
      | _ \<Rightarrow> Some result)"

declare toArray_loop.simps [code]

definition toArray :: "state \<Rightarrow> val list option" where
  "toArray s = toArray_loop (store s) [] (head s)"

partial_function (option) search_loop :: "(nat \<Rightarrow> node) \<Rightarrow> val \<Rightarrow> int \<times> ref \<Rightarrow> int option" where
  "search_loop h v vars =
     (case snd vars of
        Ref a \<Rightarrow>
          if \<not> strict_eq (node_value (h a)) v
          then search_loop h v (fst vars + 1, node_next (h a))
          else Some (fst vars)
      | _ \<Rightarrow> Some (fst vars))"

declare search_loop.simps [code]

definition search :: "val \<Rightarrow> state \<Rightarrow> int option" where
  "search v s = search_loop (store s) v (0, head s)"

text \<open>
  The generator \<^verbatim>\<open>*[Symbol.iterator]\<close>: its local state is the variable \<open>node\<close>. One
  resumption either yields a value and moves on, or finishes. \<open>iterate\<close> is the
  sequence of values a consumer receives that runs the generator to its end without
  changing the list meanwhile.
\<close>

definition iterator_start :: "state \<Rightarrow> ref" where
  "iterator_start s = head s"

definition iterator_next :: "(nat \<Rightarrow> node) \<Rightarrow> ref \<Rightarrow> (val \<times> ref) option" where
  "iterator_next h nd =
     (case nd of Ref a \<Rightarrow> Some (node_value (h a), node_next (h a)) | _ \<Rightarrow> None)"

partial_function (option) drain :: "(nat \<Rightarrow> node) \<Rightarrow> ref \<Rightarrow> val list option" where
  "drain h nd =
     (case iterator_next h nd of
        None \<Rightarrow> Some []
      | Some (v, nd') \<Rightarrow> Option.bind (drain h nd') (\<lambda>vs. Some (v # vs)))"

declare drain.simps [code]

definition iterate :: "state \<Rightarrow> val list option" where
  "iterate s = drain (store s) (iterator_start s)"

section \<open>The data model of the specification\<close>

text \<open>
  The specification's invariants, on the store: \<open>chain h p as\<close> says that following
  \<^verbatim>\<open>next\<close> from \<open>p\<close> visits exactly the nodes at the addresses \<open>as\<close>, in this order, and
  that the last of them has no successor. \<open>list_inv s as\<close> is the invariant of section 3
  for a list whose nodes are \<open>as\<close>: the chain starts at \<^verbatim>\<open>head\<close>, \<^verbatim>\<open>size\<close> is its
  length, \<^verbatim>\<open>tail\<close> is its last node (absent exactly when the chain is empty), and
  every node has been allocated. \<open>contents\<close> are the values held by the nodes.
\<close>

fun chain :: "(nat \<Rightarrow> node) \<Rightarrow> ref \<Rightarrow> nat list \<Rightarrow> bool" where
  "chain h p [] = (p = Null)"
| "chain h p (a # as) = (p = Ref a \<and> chain h (node_next (h a)) as)"

definition allocated :: "state \<Rightarrow> nat list \<Rightarrow> bool" where
  "allocated s as = (list_all (\<lambda>a. a < fresh s) as)"

definition list_inv :: "state \<Rightarrow> nat list \<Rightarrow> bool" where
  "list_inv s as =
     (chain (store s) (head s) as \<and> allocated s as \<and> size_l s = int (length as) \<and>
      tail s = (if as = [] then Null else Ref (last as)))"

definition contents :: "state \<Rightarrow> nat list \<Rightarrow> val list" where
  "contents s as = map (\<lambda>a. node_value (store s a)) as"

text \<open>
  The specification of \<open>indexOf\<close>, on a sequence of values: the zero-based position of
  the first value equal to \<open>v\<close>, the length of the sequence when there is none.
\<close>

fun first_index :: "val \<Rightarrow> val list \<Rightarrow> nat" where
  "first_index v [] = 0"
| "first_index v (x # xs) = (if strict_eq x v then 0 else Suc (first_index v xs))"

section \<open>The traversals on a chain\<close>

text \<open>
  On a chain the three unbounded loops end, and their results are read off the chain.
\<close>

lemma toArray_loop_chain:
  "chain h p as \<Longrightarrow> toArray_loop h acc p = Some (acc @ map (\<lambda>a. node_value (h a)) as)"
proof (induction as arbitrary: p acc)
  case Nil
  then show ?case by (subst toArray_loop.simps) simp
next
  case (Cons a as)
  then show ?case by (subst toArray_loop.simps) simp
qed

lemma drain_chain:
  "chain h p as \<Longrightarrow> drain h p = Some (map (\<lambda>a. node_value (h a)) as)"
proof (induction as arbitrary: p)
  case Nil
  then show ?case by (subst drain.simps) (simp add: iterator_next_def)
next
  case (Cons a as)
  then show ?case by (subst drain.simps) (simp add: iterator_next_def)
qed

lemma search_loop_chain:
  "chain h p as \<Longrightarrow>
   search_loop h v (i, p) = Some (i + int (first_index v (map (\<lambda>a. node_value (h a)) as)))"
proof (induction as arbitrary: p i)
  case Nil
  then show ?case by (subst search_loop.simps) simp
next
  case (Cons a as)
  then show ?case by (subst search_loop.simps) simp
qed

lemma first_index_le: "first_index v xs \<le> length xs"
  by (induction xs) auto

lemma first_index_none: "(\<forall>x\<in>set xs. \<not> strict_eq x v) \<Longrightarrow> first_index v xs = length xs"
  by (induction xs) auto

lemma first_index_some:
  "\<exists>x\<in>set xs. strict_eq x v \<Longrightarrow>
   first_index v xs < length xs \<and> strict_eq (xs ! first_index v xs) v \<and>
   (\<forall>j<first_index v xs. \<not> strict_eq (xs ! j) v)"
proof (induction xs)
  case Nil
  then show ?case by simp
next
  case (Cons x xs)
  show ?case
  proof (cases "strict_eq x v")
    case True
    then show ?thesis by simp
  next
    case False
    with Cons.prems have "\<exists>x\<in>set xs. strict_eq x v" by auto
    from Cons.IH[OF this] False show ?thesis
      by (auto simp: less_Suc_eq_0_disj)
  qed
qed

text \<open>
  Both ways between the accumulating loop of \<^verbatim>\<open>toArray\<close> and the generator, on any
  store (a chain or not): whenever one of them ends, so does the other, with the same
  values.
\<close>

lemma toArray_loop_drain:
  assumes "toArray_loop h acc p = Some r"
  shows "\<exists>vs. drain h p = Some vs \<and> r = acc @ vs"
proof (rule toArray_loop.raw_induct
    [where P = "\<lambda>h acc p r. \<exists>vs. drain h p = Some vs \<and> r = acc @ vs", OF _ assms])
  fix f h result nd r
  assume IH: "\<And>h result nd r. f h result nd = Some r \<Longrightarrow>
                \<exists>vs. drain h nd = Some vs \<and> r = result @ vs"
    and body: "(case nd of
                  Ref a \<Rightarrow> f h (result @ [node_value (h a)]) (node_next (h a))
                | _ \<Rightarrow> Some result) = Some r"
  show "\<exists>vs. drain h nd = Some vs \<and> r = result @ vs"
  proof (cases nd)
    case (Ref a)
    with body have "f h (result @ [node_value (h a)]) (node_next (h a)) = Some r" by simp
    from IH[OF this] obtain vs where
      "drain h (node_next (h a)) = Some vs" "r = (result @ [node_value (h a)]) @ vs" by blast
    then show ?thesis using Ref by (subst drain.simps) (simp add: iterator_next_def)
  next
    case Null
    with body show ?thesis by (subst drain.simps) (simp add: iterator_next_def)
  next
    case Undefined
    with body show ?thesis by (subst drain.simps) (simp add: iterator_next_def)
  qed
qed

lemma drain_toArray_loop:
  assumes "drain h p = Some vs"
  shows "toArray_loop h acc p = Some (acc @ vs)"
proof -
  have "\<forall>acc. toArray_loop h acc p = Some (acc @ vs)"
  proof (rule drain.raw_induct
      [where P = "\<lambda>h p vs. \<forall>acc. toArray_loop h acc p = Some (acc @ vs)", OF _ assms])
    fix f h nd vs
    assume IH: "\<And>h nd vs. f h nd = Some vs \<Longrightarrow>
                  \<forall>acc. toArray_loop h acc nd = Some (acc @ vs)"
      and body: "(case iterator_next h nd of
                    None \<Rightarrow> Some []
                  | Some (v, nd') \<Rightarrow> Option.bind (f h nd') (\<lambda>vs. Some (v # vs))) = Some vs"
    show "\<forall>acc. toArray_loop h acc nd = Some (acc @ vs)"
    proof (cases nd)
      case (Ref a)
      with body obtain ws where w: "f h (node_next (h a)) = Some ws" "vs = node_value (h a) # ws"
        by (auto simp: iterator_next_def split: Option.bind_splits)
      from IH[OF w(1)] have "\<forall>acc. toArray_loop h acc (node_next (h a)) = Some (acc @ ws)" .
      then have "\<And>acc. toArray_loop h (acc @ [node_value (h a)]) (node_next (h a)) = Some (acc @ vs)"
        using w(2) by simp
      then show ?thesis using Ref by (subst toArray_loop.simps) simp
    next
      case Null
      with body show ?thesis by (subst toArray_loop.simps) (simp add: iterator_next_def)
    next
      case Undefined
      with body show ?thesis by (subst toArray_loop.simps) (simp add: iterator_next_def)
    qed
  qed
  then show ?thesis by simp
qed

section \<open>Lists built by the code satisfy the invariant\<close>

text \<open>
  A Null-terminated chain never visits a node twice. \<^verbatim>\<open>addToEnd\<close> (\<^verbatim>\<open>push\<close>) and
  \<^verbatim>\<open>addToFront\<close> (\<^verbatim>\<open>unshift\<close>) keep the invariant and add their value at the end and at
  the front; so every list made by \<^verbatim>\<open>LinkedList.from\<close> satisfies it and holds the given
  values in order.
\<close>

lemma chain_unique: "chain h p as \<Longrightarrow> chain h p bs \<Longrightarrow> as = bs"
proof (induction as arbitrary: p bs)
  case Nil
  then show ?case by (cases bs) auto
next
  case (Cons a as)
  then show ?case by (cases bs) auto
qed

lemma chain_suffix: "chain h p (xs @ a # ys) \<Longrightarrow> chain h (Ref a) (a # ys)"
  by (induction xs arbitrary: p) auto

lemma chain_distinct: "chain h p as \<Longrightarrow> distinct as"
proof (induction as arbitrary: p)
  case Nil
  then show ?case by simp
next
  case (Cons a as)
  have "a \<notin> set as"
  proof
    assume "a \<in> set as"
    then obtain xs ys where split: "as = xs @ a # ys" by (auto simp: in_set_conv_decomp)
    with Cons.prems have "chain h (node_next (h a)) (xs @ a # ys)" by simp
    then have "chain h (Ref a) (a # ys)" by (rule chain_suffix)
    moreover from Cons.prems have "chain h (Ref a) (a # as)" by simp
    ultimately have "a # ys = a # as" by (rule chain_unique)
    with split show False by simp
  qed
  moreover from Cons.prems have "chain h (node_next (h a)) as" by simp
  then have "distinct as" by (rule Cons.IH)
  ultimately show ?case by simp
qed

lemma chain_store_other:
  "b \<notin> set as \<Longrightarrow> chain (h(b := n)) p as = chain h p as"
  by (induction as arbitrary: p) auto

lemma chain_link_last:
  "chain h p as \<Longrightarrow> as \<noteq> [] \<Longrightarrow> b \<notin> set as \<Longrightarrow> node_next n = Null \<Longrightarrow>
   chain ((h(b := n))(last as := (h (last as))\<lparr>node_next := Ref b\<rparr>)) p (as @ [b])"
proof (induction as arbitrary: p)
  case Nil
  then show ?case by simp
next
  case (Cons a as)
  from Cons.prems(1) have d: "distinct (a # as)" by (rule chain_distinct)
  show ?case
  proof (cases "as = []")
    case True
    with Cons.prems show ?thesis by auto
  next
    case False
    with d have ne: "a \<noteq> last as" by auto
    from Cons.prems have "chain h (node_next (h a)) as" "b \<notin> set as" "b \<noteq> a" by auto
    from Cons.IH [OF this(1) False this(2) Cons.prems(4)] Cons.prems False ne \<open>b \<noteq> a\<close>
    show ?thesis by simp
  qed
qed

lemma addToEnd_list_inv:
  assumes "list_inv s as"
  shows "\<exists>s'. addToEnd v s = Inr s' \<and> list_inv s' (as @ [fresh s]) \<and>
              contents s' (as @ [fresh s]) = contents s as @ [v]"
proof (cases "as = []")
  case True
  with assms show ?thesis
    by (simp add: list_inv_def addToEnd_def new_node_def allocated_def contents_def)
next
  case False
  from assms have c: "chain (store s) (head s) as" and al: "allocated s as"
    and t: "tail s = Ref (last as)" and n: "size_l s = int (length as)"
    using False by (simp_all add: list_inv_def)
  from al have nin: "fresh s \<notin> set as" by (auto simp: allocated_def list_all_iff)
  from False have lin: "last as \<in> set as" by simp
  with nin have neq: "last as \<noteq> fresh s" by auto
  let ?n = "\<lparr>node_next = Null, node_value = v\<rparr>"
  have ch: "chain (((store s)(fresh s := ?n))(last as := (store s (last as))\<lparr>node_next := Ref (fresh s)\<rparr>))
              (head s) (as @ [fresh s])"
    using chain_link_last [OF c False nin, of ?n] by simp
  have al': "list_all (\<lambda>a. a < Suc (fresh s)) as"
    using al by (auto simp: allocated_def list_all_iff)
  have vals: "map (\<lambda>a. node_value
        ((((store s)(fresh s := ?n))(last as := (store s (last as))\<lparr>node_next := Ref (fresh s)\<rparr>)) a)) as
      = map (\<lambda>a. node_value (store s a)) as"
    using nin by (intro map_cong) auto
  show ?thesis
    using t n ch al' neq False vals
    by (simp add: list_inv_def addToEnd_def new_node_def set_next_def allocated_def contents_def)
qed

lemma addToFront_list_inv:
  assumes "list_inv s as"
  shows "list_inv (addToFront v s) (fresh s # as) \<and>
         contents (addToFront v s) (fresh s # as) = v # contents s as"
proof (cases "as = []")
  case True
  with assms show ?thesis
    by (simp add: list_inv_def addToFront_def new_node_def allocated_def contents_def)
next
  case False
  from assms have c: "chain (store s) (head s) as" and al: "allocated s as"
    and t: "tail s = Ref (last as)" and n: "size_l s = int (length as)"
    using False by (simp_all add: list_inv_def)
  from al have nin: "fresh s \<notin> set as" by (auto simp: allocated_def list_all_iff)
  have al': "list_all (\<lambda>a. a < Suc (fresh s)) as"
    using al by (auto simp: allocated_def list_all_iff)
  have vals: "map (\<lambda>a. node_value (((store s)(fresh s := \<lparr>node_next = head s, node_value = v\<rparr>)) a)) as
      = map (\<lambda>a. node_value (store s a)) as"
    using nin by (intro map_cong) auto
  show ?thesis
    using t n c al' nin False vals
    by (simp add: list_inv_def addToFront_def new_node_def allocated_def contents_def
        chain_store_other)
qed

lemma addAll_list_inv:
  "list_inv s as \<Longrightarrow>
   \<exists>s' bs. addAll vs s = Inr s' \<and> list_inv s' (as @ bs) \<and>
           contents s' (as @ bs) = contents s as @ vs"
proof (induction vs arbitrary: s as)
  case Nil
  then show ?case by (intro exI [of _ s] exI [of _ "[]"]) simp
next
  case (Cons v vs)
  from addToEnd_list_inv [OF Cons.prems, of v] obtain s1 where
    s1: "addToEnd v s = Inr s1" "list_inv s1 (as @ [fresh s])"
        "contents s1 (as @ [fresh s]) = contents s as @ [v]" by blast
  from Cons.IH [OF s1(2)] obtain s' bs where
    s': "addAll vs s1 = Inr s'" "list_inv s' ((as @ [fresh s]) @ bs)"
        "contents s' ((as @ [fresh s]) @ bs) = contents s1 (as @ [fresh s]) @ vs" by blast
  show ?case
    using s1 s' by (intro exI [of _ s'] exI [of _ "fresh s # bs"]) simp
qed

lemma list_inv_empty_list: "list_inv empty_list []"
  by (simp add: list_inv_def empty_list_def allocated_def)

lemma from_list_inv:
  "\<exists>s as. from vs = Inr s \<and> list_inv s as \<and> contents s as = vs \<and> toArray s = Some vs"
proof -
  from addAll_list_inv [OF list_inv_empty_list, of vs] obtain s bs where
    s: "addAll vs empty_list = Inr s" "list_inv s bs" "contents s bs = vs"
    by (auto simp: contents_def)
  from s(2) have "chain (store s) (head s) bs" by (simp add: list_inv_def)
  from toArray_loop_chain [OF this, of "[]"] s(3) have "toArray s = Some vs"
    by (simp add: toArray_def contents_def)
  with s show ?thesis by (auto simp: from_def)
qed

section \<open>nodeAt\<close>

text \<open>
  What \<^verbatim>\<open>nodeAt\<close> returns on a list that satisfies the invariant. Index \<open>0\<close> gives the
  first node. An index \<open>k\<close> from \<open>1\<close> to the length gives the node at position \<open>k - 1\<close>
  when the list has at least two nodes: the loop starts at the first node with \<open>i = 1\<close>
  and stops as soon as \<open>i = k\<close>. Every other index gives \<open>Null\<close>.
\<close>

lemma nodeAt_loop_chain:
  "chain h (Ref a) (a # rest) \<Longrightarrow>
   nodeAt_loop h index (Ref a) i =
     (Ref ((a # rest) ! min (nat (index - i)) (length rest)),
      i + int (min (nat (index - i)) (length rest)))"
proof (induction rest arbitrary: a i)
  case Nil
  then show ?case by simp
next
  case (Cons b rest)
  from Cons.prems have nx: "node_next (h a) = Ref b" and c: "chain h (Ref b) (b # rest)"
    by simp_all
  show ?case
  proof (cases "i < index")
    case True
    then have m: "min (nat (index - i)) (Suc (length rest)) =
        Suc (min (nat (index - (i + 1))) (length rest))"
      by arith
    from True nx have "nodeAt_loop h index (Ref a) i = nodeAt_loop h index (Ref b) (i + 1)"
      by simp
    also note Cons.IH [OF c, of "i + 1"]
    finally show ?thesis using m by simp
  next
    case False
    with nx show ?thesis by simp
  qed
qed

lemma nodeAt_list_inv:
  assumes "list_inv s as"
  shows "nodeAt k s =
     Inr (if k < 0 then Null
          else if k = 0 then head s
          else if 2 \<le> length as \<and> k \<le> int (length as) then Ref (as ! (nat k - 1))
          else Null)"
proof (cases "k \<le> 0")
  case True
  then show ?thesis by (simp add: nodeAt_def)
next
  case False
  from assms have c: "chain (store s) (head s) as" by (simp add: list_inv_def)
  show ?thesis
  proof (cases as)
    case Nil
    with c False show ?thesis by (simp add: nodeAt_def)
  next
    case (Cons a rest)
    with c have hd: "head s = Ref a" and c': "chain (store s) (Ref a) (a # rest)" by simp_all
    show ?thesis
    proof (cases rest)
      case Nil
      with c' Cons hd False show ?thesis by (simp add: nodeAt_def)
    next
      case (Cons b rest')
      with c' have nx: "node_next (store s a) = Ref b" by simp
      let ?m = "min (nat (k - 1)) (length rest)"
      have loop: "nodeAt_loop (store s) k (Ref a) 1 = (Ref ((a # rest) ! ?m), 1 + int ?m)"
        by (rule nodeAt_loop_chain [OF c'])
      show ?thesis
      proof (cases "k \<le> int (length as)")
        case True
        with False \<open>as = a # rest\<close> have "?m = nat k - 1" by simp
        with loop True False hd nx \<open>as = a # rest\<close> Cons show ?thesis
          by (simp add: nodeAt_def)
      next
        case gt: False
        with \<open>as = a # rest\<close> have "?m = length rest" by simp
        with loop gt False hd nx \<open>as = a # rest\<close> Cons show ?thesis
          by (simp add: nodeAt_def)
      qed
    qed
  qed
qed

lemma shift_list_inv_longer:
  assumes "list_inv s (a # b # rest)"
  shows "shift s =
     Inr (node_value (store s a), s\<lparr>head := Null, tail := Null, size_l := size_l s - 1\<rparr>)"
  using assms by (simp add: list_inv_def shift_def)

section \<open>popFirst (shift)\<close>

text \<open>
  Claim C1. The claim: \<open>popFirst\<close> returns the first value, advances \<^verbatim>\<open>head\<close> to the
  successor when there is one and leaves \<^verbatim>\<open>tail\<close> alone, and \<open>prepend\<close> followed by
  \<open>popFirst\<close> leaves the contents as they were. The code has the two branches the other
  way round. On the list \<open>[1]\<close>, \<^verbatim>\<open>unshift(0)\<close> and then \<^verbatim>\<open>shift()\<close> returns \<open>0\<close>, but the first
  node had a successor and the code sets \<^verbatim>\<open>head\<close> and \<^verbatim>\<open>tail\<close> to \<open>null\<close>: the list reads as
  empty, with length \<open>1\<close>.
\<close>

theorem shift_discards_rest_of_list:
  "(case from [VNum 1] of
      Inl e \<Rightarrow> False
    | Inr s \<Rightarrow>
        toArray s = Some [VNum 1] \<and> length_l s = 1 \<and>
        (case shift (unshift (VNum 0) s) of
           Inl e \<Rightarrow> False
         | Inr (v, s') \<Rightarrow>
             v = VNum 0 \<and> head s' = Null \<and> tail s' = Null \<and> length_l s' = 1 \<and>
             toArray s' = Some []))"
  by code_simp

section \<open>popLast (pop)\<close>

text \<open>
  Claim C2. The claim: \<open>popLast\<close> on a list of at least two nodes cuts the chain at the
  node at index \<open>count - 2\<close>, and \<open>append\<close> followed by \<open>popLast\<close> leaves the contents as
  they were. On the list \<open>[1, 2]\<close>, \<^verbatim>\<open>push(3)\<close> and then \<^verbatim>\<open>pop()\<close> returns \<open>3\<close>, but
  \<^verbatim>\<open>nodeAt(1)\<close> is the first node, not the second: the chain is cut after the first
  node, the list reads \<open>[1]\<close> and its length is \<open>2\<close>.
\<close>

theorem pop_of_three_cuts_at_head:
  "(case from [VNum 1, VNum 2] of
      Inl e \<Rightarrow> False
    | Inr s \<Rightarrow>
        toArray s = Some [VNum 1, VNum 2] \<and> length_l s = 2 \<and>
        (case push (VNum 3) s of
           Inl e \<Rightarrow> False
         | Inr s1 \<Rightarrow>
             toArray s1 = Some [VNum 1, VNum 2, VNum 3] \<and> length_l s1 = 3 \<and>
             nodeAt (length_l s1 - 2) s1 = Inr (head s1) \<and>
             (case pop s1 of
                Inl e \<Rightarrow> False
              | Inr (v, s2) \<Rightarrow>
                  v = VNum 3 \<and> toArray s2 = Some [VNum 1] \<and> length_l s2 = 2 \<and>
                  tail s2 = head s2)))"
  by code_simp

section \<open>insertAfter (addAfter)\<close>

text \<open>
  Claim C3. The claim: \<open>insertAfter(1, 99)\<close> on \<open>[0, 1, 2]\<close> gives \<open>[0, 1, 99, 2]\<close>. In the
  code the anchor \<^verbatim>\<open>nodeAt(1)\<close> is the first node, and the list becomes
  \<open>[0, 99, 1, 2]\<close>.
\<close>

theorem addAfter_one_inserts_after_head:
  "(case from [VNum 1, VNum 2] of
      Inl e \<Rightarrow> False
    | Inr s \<Rightarrow>
        toArray (unshift (VNum 0) s) = Some [VNum 0, VNum 1, VNum 2] \<and>
        (case addAfter 1 (VNum 99) (unshift (VNum 0) s) of
           Inl e \<Rightarrow> False
         | Inr s' \<Rightarrow>
             toArray s' = Some [VNum 0, VNum 99, VNum 1, VNum 2] \<and> length_l s' = 4))"
  by code_simp

section \<open>The invariants after an operation\<close>

text \<open>
  Claim C4. The claim: the invariants of the data model hold after every public
  operation. The list \<open>[1, 2]\<close> made by \<^verbatim>\<open>LinkedList.from\<close> satisfies them. After
  \<^verbatim>\<open>shift()\<close> the size is \<open>1\<close> while \<^verbatim>\<open>head\<close> and \<^verbatim>\<open>tail\<close> are \<open>null\<close>. After
  \<^verbatim>\<open>removeAt(1)\<close> the size is \<open>1\<close> and the first node has no successor, but \<^verbatim>\<open>tail\<close> is
  still the removed node. After \<^verbatim>\<open>clear()\<close> the size is \<open>0\<close> while \<^verbatim>\<open>head\<close> and \<^verbatim>\<open>tail\<close>
  still point to the (emptied) nodes.
\<close>

theorem invariant_broken_by_shift_removeAt_clear:
  "(case from [VNum 1, VNum 2] of
      Inl e \<Rightarrow> False
    | Inr s \<Rightarrow>
        list_inv s [0, 1] \<and>
        (case shift s of
           Inl e \<Rightarrow> False
         | Inr (v, s') \<Rightarrow> head s' = Null \<and> tail s' = Null \<and> size_l s' = 1) \<and>
        (case removeAt 1 s of
           Inl e \<Rightarrow> False
         | Inr s' \<Rightarrow>
             size_l s' = 1 \<and> head s' = Ref 0 \<and> tail s' = Ref 1 \<and>
             node_next (store s' 0) = Null) \<and>
        (case clear s of
           None \<Rightarrow> False
         | Some s' \<Rightarrow> size_l s' = 0 \<and> head s' = Ref 0 \<and> tail s' = Ref 1))"
  by code_simp

section \<open>removeAt\<close>

text \<open>
  Claim C5. The claim: \<open>removeAt\<close> with an index in \<open>[0, count)\<close> removes the node at
  that index, index \<open>0\<close> included, and moves \<^verbatim>\<open>tail\<close> when the last node goes. On the
  list \<open>[0, 1, 99, 2]\<close>: \<^verbatim>\<open>removeAt(0)\<close> throws; \<^verbatim>\<open>removeAt(2)\<close> removes the node at
  index \<open>1\<close>; \<^verbatim>\<open>removeAt(4)\<close> removes the last node and leaves \<^verbatim>\<open>tail\<close> on it, so that
  \<^verbatim>\<open>last()\<close> gives \<open>null\<close>.
\<close>

theorem removeAt_zero_fails_and_two_removes_second:
  "(case from [VNum 0, VNum 1, VNum 99, VNum 2] of
      Inl e \<Rightarrow> False
    | Inr s \<Rightarrow>
        toArray s = Some [VNum 0, VNum 1, VNum 99, VNum 2] \<and> length_l s = 4 \<and>
        (case removeAt 0 s of
           Inl e \<Rightarrow> e = RemoveAtNotExist 0
         | Inr s' \<Rightarrow> False) \<and>
        (case removeAt 2 s of
           Inl e \<Rightarrow> False
         | Inr s' \<Rightarrow> toArray s' = Some [VNum 0, VNum 99, VNum 2]) \<and>
        (case removeAt 4 s of
           Inl e \<Rightarrow> False
         | Inr s' \<Rightarrow>
             toArray s' = Some [VNum 0, VNum 1, VNum 99] \<and> tail s' = tail s \<and>
             last_l s' = VNull))"
  by code_simp

section \<open>Index errors\<close>

text \<open>
  Claim C6. The claim: \<open>at\<close>, \<open>insertAfter\<close> and \<open>removeAt\<close> fail exactly for the indices
  outside \<open>[0, count)\<close>. On the list \<open>[1, 2]\<close>: \<^verbatim>\<open>at(-1)\<close> returns \<open>1\<close>;
  \<^verbatim>\<open>removeAt(0)\<close> throws; \<^verbatim>\<open>addAfter(2, 9)\<close> and \<^verbatim>\<open>removeAt(2)\<close> succeed.
\<close>

theorem index_errors_not_exact:
  "(case from [VNum 1, VNum 2] of
      Inl e \<Rightarrow> False
    | Inr s \<Rightarrow>
        length_l s = 2 \<and>
        at (- 1) s = Inr (VNum 1) \<and>
        (case removeAt 0 s of
           Inl e \<Rightarrow> e = RemoveAtNotExist 0
         | Inr s' \<Rightarrow> False) \<and>
        (case addAfter 2 (VNum 9) s of
           Inl e \<Rightarrow> False
         | Inr s' \<Rightarrow> toArray s' = Some [VNum 1, VNum 2, VNum 9]) \<and>
        (case removeAt 2 s of
           Inl e \<Rightarrow> False
         | Inr s' \<Rightarrow> toArray s' = Some [VNum 1]))"
  by code_simp

section \<open>clear\<close>

text \<open>
  Claim C7. The claim: after \<open>clear\<close> the list is in the empty state, \<open>toSequence\<close>
  returns the empty sequence and iteration yields nothing. On the list \<open>[1]\<close> the code
  sets the size to \<open>0\<close> and empties the node, but \<^verbatim>\<open>head\<close> and \<^verbatim>\<open>tail\<close> keep pointing to
  it: \<^verbatim>\<open>toArray()\<close> and the iteration give the one value \<^verbatim>\<open>undefined\<close>.
\<close>

theorem clear_keeps_head_and_tail:
  "(case from [VNum 1] of
      Inl e \<Rightarrow> False
    | Inr s \<Rightarrow>
        (case clear s of
           None \<Rightarrow> False
         | Some s' \<Rightarrow>
             length_l s' = 0 \<and> head s' = Ref 0 \<and> tail s' = Ref 0 \<and>
             toArray s' = Some [VUndefined] \<and> iterate s' = Some [VUndefined]))"
  by code_simp

section \<open>search\<close>

text \<open>
  Claim C8. On a list that satisfies the invariant of the data model, \<^verbatim>\<open>search\<close>
  (\<open>indexOf\<close>) returns the zero-based position of the first node whose value is strictly
  equal (\<^verbatim>\<open>===\<close>) to the argument; when no node matches it returns \<^verbatim>\<open>size\<close>, the length of
  the list, not \<open>-1\<close>.
\<close>

theorem search_first_match_or_length:
  assumes "list_inv s as"
  shows "search v s = Some (int (first_index v (contents s as))) \<and>
         ((\<forall>x\<in>set (contents s as). \<not> strict_eq x v) \<longrightarrow> search v s = Some (length_l s)) \<and>
         ((\<exists>x\<in>set (contents s as). strict_eq x v) \<longrightarrow>
            (\<exists>i<length (contents s as).
               search v s = Some (int i) \<and> strict_eq (contents s as ! i) v \<and>
               (\<forall>j<i. \<not> strict_eq (contents s as ! j) v)))"
proof -
  let ?xs = "contents s as"
  from assms have c: "chain (store s) (head s) as" and n: "size_l s = int (length as)"
    by (simp_all add: list_inv_def)
  have r: "search v s = Some (int (first_index v ?xs))"
    using search_loop_chain [OF c, of v 0] by (simp add: search_def contents_def)
  have none: "(\<forall>x\<in>set ?xs. \<not> strict_eq x v) \<longrightarrow> search v s = Some (length_l s)"
  proof
    assume "\<forall>x\<in>set ?xs. \<not> strict_eq x v"
    then have "first_index v ?xs = length ?xs" by (rule first_index_none)
    with r n show "search v s = Some (length_l s)"
      by (simp add: length_l_def contents_def)
  qed
  have some: "(\<exists>x\<in>set ?xs. strict_eq x v) \<longrightarrow>
            (\<exists>i<length ?xs. search v s = Some (int i) \<and> strict_eq (?xs ! i) v \<and>
               (\<forall>j<i. \<not> strict_eq (?xs ! j) v))"
  proof
    assume "\<exists>x\<in>set ?xs. strict_eq x v"
    from first_index_some [OF this] r
    show "\<exists>i<length ?xs. search v s = Some (int i) \<and> strict_eq (?xs ! i) v \<and>
               (\<forall>j<i. \<not> strict_eq (?xs ! j) v)"
      by blast
  qed
  from r none some show ?thesis by blast
qed

theorem search_first_match_or_length_witness:
  "list_inv
     \<lparr>store = (\<lambda>_. deleted)
        (0 := \<lparr>node_next = Ref 1, node_value = VNum 7\<rparr>,
         1 := \<lparr>node_next = Ref 2, node_value = VNum 8\<rparr>,
         2 := \<lparr>node_next = Null, node_value = VNum 8\<rparr>),
      fresh = 3, head = Ref 0, tail = Ref 2, size_l = 3\<rparr> [0, 1, 2] \<and>
   search (VNum 8)
     \<lparr>store = (\<lambda>_. deleted)
        (0 := \<lparr>node_next = Ref 1, node_value = VNum 7\<rparr>,
         1 := \<lparr>node_next = Ref 2, node_value = VNum 8\<rparr>,
         2 := \<lparr>node_next = Null, node_value = VNum 8\<rparr>),
      fresh = 3, head = Ref 0, tail = Ref 2, size_l = 3\<rparr> = Some 1 \<and>
   search (VNum 9)
     \<lparr>store = (\<lambda>_. deleted)
        (0 := \<lparr>node_next = Ref 1, node_value = VNum 7\<rparr>,
         1 := \<lparr>node_next = Ref 2, node_value = VNum 8\<rparr>,
         2 := \<lparr>node_next = Null, node_value = VNum 8\<rparr>),
      fresh = 3, head = Ref 0, tail = Ref 2, size_l = 3\<rparr> = Some 3"
  (is "list_inv ?S ?as \<and> _")
proof -
  have inv: "list_inv ?S ?as"
    by (simp add: list_inv_def allocated_def)
  from search_first_match_or_length [OF inv, of "VNum 8"]
    search_first_match_or_length [OF inv, of "VNum 9"] inv
  show ?thesis
    by (simp add: contents_def strict_eq_def)
qed

section \<open>The constructor\<close>

text \<open>
  What the constructor does with a single value, for every value: a truthy value gets
  one node, which is \<^verbatim>\<open>head\<close> and \<^verbatim>\<open>tail\<close>; a falsy value (\<^verbatim>\<open>undefined\<close>, \<^verbatim>\<open>null\<close>, \<^verbatim>\<open>false\<close>,
  \<open>0\<close>, \<open>NaN\<close>, the empty string) is dropped by the guard \<^verbatim>\<open>if (!value) return this\<close> and
  the list stays empty.
\<close>

lemma constructor_truthy_single_node:
  assumes "truthy v"
  shows "\<exists>s a. constructor (Single v) = Inr s \<and> head s = Ref a \<and> tail s = Ref a \<and>
                size_l s = 1 \<and> store s a = \<lparr>node_next = Null, node_value = v\<rparr> \<and>
                list_inv s [a] \<and> contents s [a] = [v] \<and> toArray s = Some [v]"
proof -
  let ?s = "empty_list\<lparr>store := (store empty_list)(0 := \<lparr>node_next = Null, node_value = v\<rparr>),
              fresh := 1, head := Ref 0, tail := Ref 0, size_l := 1\<rparr>"
  from assms have c: "constructor (Single v) = Inr ?s"
    by (simp add: constructor_def init_fields_def empty_list_def new_node_def)
  have i: "list_inv ?s [0]"
    by (simp add: list_inv_def allocated_def)
  have "chain (store ?s) (head ?s) [0]"
    by simp
  from toArray_loop_chain [OF this, of "[]"] have t: "toArray ?s = Some [v]"
    by (simp add: toArray_def)
  from c i t show ?thesis
    by (intro exI [of _ ?s] exI [of _ 0]) (simp add: contents_def)
qed

lemma constructor_falsy_empty:
  assumes "\<not> truthy v"
  shows "constructor (Single v) = Inr empty_list"
  using assms by (simp add: constructor_def init_fields_def empty_list_def)

text \<open>
  Claim C9. The claim: for every value \<open>v\<close>, the list constructed from the single value
  \<open>v\<close> has exactly one node holding \<open>v\<close>, with \<^verbatim>\<open>head\<close> and \<^verbatim>\<open>tail\<close> both this node and
  size \<open>1\<close>. The code: \<^verbatim>\<open>new LinkedList(0)\<close> is the empty list, and so are the lists
  constructed from \<^verbatim>\<open>''\<close>, \<^verbatim>\<open>false\<close>, \<^verbatim>\<open>null\<close> and \<open>NaN\<close>, while the other ways to put the
  value \<open>0\<close> into a list keep it: \<^verbatim>\<open>new LinkedList([0])\<close>, \<^verbatim>\<open>LinkedList.from([0])\<close> and
  \<^verbatim>\<open>push(0)\<close> on the empty list each give the one-node list \<open>[0]\<close>.
\<close>

theorem constructor_drops_falsy_value:
  "(case constructor (Single (VNum 0)) of
      Inl e \<Rightarrow> False
    | Inr s \<Rightarrow> head s = Null \<and> tail s = Null \<and> length_l s = 0 \<and> toArray s = Some []) \<and>
   (case constructor (Single (VStr [])) of
      Inl e \<Rightarrow> False
    | Inr s \<Rightarrow> head s = Null \<and> tail s = Null \<and> length_l s = 0 \<and> toArray s = Some []) \<and>
   (case constructor (Single (VBool False)) of
      Inl e \<Rightarrow> False
    | Inr s \<Rightarrow> head s = Null \<and> tail s = Null \<and> length_l s = 0 \<and> toArray s = Some []) \<and>
   (case constructor (Single VNull) of
      Inl e \<Rightarrow> False
    | Inr s \<Rightarrow> head s = Null \<and> tail s = Null \<and> length_l s = 0 \<and> toArray s = Some []) \<and>
   (case constructor (Single VNaN) of
      Inl e \<Rightarrow> False
    | Inr s \<Rightarrow> head s = Null \<and> tail s = Null \<and> length_l s = 0 \<and> toArray s = Some []) \<and>
   (case constructor (Multiple [VNum 0]) of
      Inl e \<Rightarrow> False
    | Inr s \<Rightarrow>
        head s = Ref 0 \<and> tail s = Ref 0 \<and> length_l s = 1 \<and> toArray s = Some [VNum 0]) \<and>
   (case from [VNum 0] of
      Inl e \<Rightarrow> False
    | Inr s \<Rightarrow>
        head s = Ref 0 \<and> tail s = Ref 0 \<and> length_l s = 1 \<and> toArray s = Some [VNum 0]) \<and>
   (case push (VNum 0) empty_list of
      Inl e \<Rightarrow> False
    | Inr s \<Rightarrow>
        head s = Ref 0 \<and> tail s = Ref 0 \<and> length_l s = 1 \<and> toArray s = Some [VNum 0])"
  by code_simp

section \<open>Iteration and toArray\<close>

text \<open>
  Claim C10. For every list, running the generator of \<^verbatim>\<open>Symbol.iterator\<close> to its end
  gives the same sequence of values as \<^verbatim>\<open>toArray\<close> (on a store where the \<^verbatim>\<open>next\<close> links
  never end, neither returns). On a list that satisfies the invariant of the data
  model, both return the values of the nodes from \<^verbatim>\<open>head\<close> to \<^verbatim>\<open>tail\<close> in chain order.
\<close>

theorem iterate_agrees_with_toArray:
  "iterate s = toArray s \<and> (list_inv s as \<longrightarrow> toArray s = Some (contents s as))"
proof
  show "iterate s = toArray s"
  proof (cases "toArray s")
    case None
    show ?thesis
    proof (cases "iterate s")
      case None
      with \<open>toArray s = None\<close> show ?thesis by simp
    next
      case (Some vs)
      then have "toArray s = Some ([] @ vs)"
        unfolding iterate_def toArray_def iterator_start_def by (rule drain_toArray_loop)
      with None show ?thesis by simp
    qed
  next
    case (Some r)
    then obtain vs where "drain (store s) (head s) = Some vs" "r = [] @ vs"
      unfolding toArray_def using toArray_loop_drain by blast
    with Some show ?thesis by (simp add: iterate_def iterator_start_def)
  qed
next
  show "list_inv s as \<longrightarrow> toArray s = Some (contents s as)"
  proof
    assume "list_inv s as"
    then have "chain (store s) (head s) as" by (simp add: list_inv_def)
    from toArray_loop_chain [OF this, of "[]"] show "toArray s = Some (contents s as)"
      by (simp add: toArray_def contents_def)
  qed
qed

theorem iterate_agrees_with_toArray_witness:
  "list_inv
     \<lparr>store = (\<lambda>_. deleted)
        (0 := \<lparr>node_next = Ref 1, node_value = VNum 1\<rparr>,
         1 := \<lparr>node_next = Null, node_value = VNum 2\<rparr>),
      fresh = 2, head = Ref 0, tail = Ref 1, size_l = 2\<rparr> [0, 1] \<and>
   iterate
     \<lparr>store = (\<lambda>_. deleted)
        (0 := \<lparr>node_next = Ref 1, node_value = VNum 1\<rparr>,
         1 := \<lparr>node_next = Null, node_value = VNum 2\<rparr>),
      fresh = 2, head = Ref 0, tail = Ref 1, size_l = 2\<rparr> = Some [VNum 1, VNum 2] \<and>
   toArray
     \<lparr>store = (\<lambda>_. deleted)
        (0 := \<lparr>node_next = Ref 1, node_value = VNum 1\<rparr>,
         1 := \<lparr>node_next = Null, node_value = VNum 2\<rparr>),
      fresh = 2, head = Ref 0, tail = Ref 1, size_l = 2\<rparr> = Some [VNum 1, VNum 2]"
  (is "list_inv ?S ?as \<and> _")
proof -
  have inv: "list_inv ?S ?as"
    by (simp add: list_inv_def allocated_def)
  from iterate_agrees_with_toArray [of ?S ?as] inv show ?thesis
    by (simp add: contents_def)
qed

end
